theory Spec2Isabelle
  imports Main "HOL-Library.AList"
begin

section \<open>The collaborators taken as given\<close>

text \<open>
  Modelled from the spec: the union-of-two-values type \<open>These\<close> of the prelude
  (\<open>fp-ts/lib/These\<close>, not part of the sources). The prelude's constructor functions
  \<open>this_\<close>, \<open>that\<close> and \<open>both\<close> are the three constructors \<open>This\<close>, \<open>That\<close> and
  \<open>Both\<close>; \<open>x.fold(onThis, onThat, onBoth)\<close> is the three-way case distinction, and
  \<open>x.bimap(f, g)\<close> maps the left value with \<open>f\<close> and the right value with \<open>g\<close>.
\<close>

datatype ('a, 'b) These = This 'a | That 'b | Both 'a 'b

definition fold_These ::
  "('a, 'b) These \<Rightarrow> ('a \<Rightarrow> 'c) \<Rightarrow> ('b \<Rightarrow> 'c) \<Rightarrow> ('a \<Rightarrow> 'b \<Rightarrow> 'c) \<Rightarrow> 'c" where
  "fold_These x onThis onThat onBoth =
     (case x of This a \<Rightarrow> onThis a | That b \<Rightarrow> onThat b | Both a b \<Rightarrow> onBoth a b)"

definition bimap_These ::
  "('a, 'b) These \<Rightarrow> ('a \<Rightarrow> 'c) \<Rightarrow> ('b \<Rightarrow> 'd) \<Rightarrow> ('c, 'd) These" where
  "bimap_These x f g =
     (case x of This a \<Rightarrow> This (f a) | That b \<Rightarrow> That (g b) | Both a b \<Rightarrow> Both (f a) (g b))"

text \<open>
  Modelled from the spec: the optional value of the prelude (\<open>fp-ts/lib/Option\<close>) is
  HOL's \<open>option\<close>: \<open>some\<close> is \<open>Some\<close>, \<open>none\<close> is \<open>None\<close>, \<open>fa.value\<close> of a present
  value is \<open>the fa\<close>, and \<open>mb.map(g)\<close> is \<open>map_option g mb\<close>. \<open>identity\<close> is \<open>id\<close> and
  \<open>tuple(a, b)\<close> is the pair \<open>(a, b)\<close>.
\<close>

abbreviation isSome :: "'a option \<Rightarrow> bool" where
  "isSome fa \<equiv> fa \<noteq> None"

abbreviation isNone :: "'a option \<Rightarrow> bool" where
  "isNone fa \<equiv> fa = None"

text \<open>
  Modelled from the spec: \<open>catOptions\<close> of the prelude (\<open>fp-ts/lib/Array\<close>), the filter that
  drops the absent entries of a sequence of optional values and unwraps the present ones.
\<close>

primrec catOptions :: "'a option list \<Rightarrow> 'a list" where
  "catOptions [] = []"
| "catOptions (x # xs) = (case x of None \<Rightarrow> catOptions xs | Some a \<Rightarrow> a # catOptions xs)"

text \<open>
  Modelled from the spec: a semigroup of the prelude (\<open>fp-ts/lib/Semigroup\<close>) is a record
  holding its combine function \<open>concat\<close>; \<open>semigroupSum\<close> combines numbers by addition
  (integers here: the scenario of the spec stays within them).
\<close>

record 'a Semigroup =
  concat_S :: "'a \<Rightarrow> 'a \<Rightarrow> 'a"

definition semigroupSum :: "int Semigroup" where
  "semigroupSum = \<lparr>concat_S = (\<lambda>x y. x + y)\<rparr>"

text \<open>
  Modelled from the spec: the non-empty sequence of the prelude
  (\<open>fp-ts/lib/NonEmptyArray\<close>), a head element and a possibly empty tail.
\<close>

record 'a NonEmptyArray =
  head :: 'a
  tail :: "'a list"

section \<open>Results and errors\<close>

text \<open>
  None of the operations has an error path of its own. The model makes the places explicit
  where the JavaScript would leave the well-typed world: a read beyond the end of an array
  or of a key an object does not own yields \<open>undefined\<close> (\<open>UndefinedRead\<close>), a write
  beyond the end of an array leaves holes (\<open>SparseWrite\<close>), and a call of a property
  that is not a function throws a \<open>TypeError\<close> (\<open>NotAFunction\<close>).
\<close>

datatype error = UndefinedRead | SparseWrite | NotAFunction

type_synonym 'a result = "error + 'a"

definition rbind :: "'a result \<Rightarrow> ('a \<Rightarrow> 'b result) \<Rightarrow> 'b result" where
  "rbind m k = (case m of Inl e \<Rightarrow> Inl e | Inr x \<Rightarrow> k x)"

definition rmap :: "('a \<Rightarrow> 'b) \<Rightarrow> 'a result \<Rightarrow> 'b result" where
  "rmap g m = (case m of Inl e \<Rightarrow> Inl e | Inr x \<Rightarrow> Inr (g x))"

section \<open>Semialign.ts\<close>

subsection \<open>The \<open>Option\<close> instance\<close>

definition option_alignWith ::
  "'a option \<Rightarrow> 'b option \<Rightarrow> (('a, 'b) These \<Rightarrow> 'c) \<Rightarrow> 'c option" where
  "option_alignWith fa fb f =
     (if isSome fa \<and> isSome fb then Some (f (Both (the fa) (the fb)))
      else if isNone fa \<and> isSome fb then Some (f (That (the fb)))
      else if isSome fa \<and> isNone fb then Some (f (This (the fa)))
      else None)"

definition option_align :: "'a option \<Rightarrow> 'b option \<Rightarrow> ('a, 'b) These option" where
  "option_align fa fb = option_alignWith fa fb id"

subsection \<open>The \<open>Array\<close> instance\<close>

text \<open>
  \<open>xs[i]\<close> read and \<open>fc[i] = v\<close> written as JavaScript does: a write at the index
  \<open>length fc\<close> extends the array by one element.
\<close>

definition array_get :: "'a list \<Rightarrow> nat \<Rightarrow> 'a result" where
  "array_get xs i = (if i < length xs then Inr (xs ! i) else Inl UndefinedRead)"

definition array_set :: "'a list \<Rightarrow> nat \<Rightarrow> 'a \<Rightarrow> 'a list result" where
  "array_set fc i v =
     (if i < length fc then Inr (fc[i := v])
      else if i = length fc then Inr (fc @ [v])
      else Inl SparseWrite)"

text \<open>The loop \<open>for (let i = lo; i < hi; i++) body\<close> over the state \<open>s\<close>.\<close>

function for_loop :: "nat \<Rightarrow> nat \<Rightarrow> (nat \<Rightarrow> 's \<Rightarrow> 's result) \<Rightarrow> 's \<Rightarrow> 's result" where
  "for_loop i hi body s =
     (if i < hi
      then (case body i s of Inl e \<Rightarrow> Inl e | Inr s' \<Rightarrow> for_loop (Suc i) hi body s')
      else Inr s)"
  by pat_completeness auto
termination
  by (relation "measure (\<lambda>(i, hi, body, s). hi - i)") auto

declare for_loop.simps [simp del]

definition array_alignWith ::
  "'a list \<Rightarrow> 'b list \<Rightarrow> (('a, 'b) These \<Rightarrow> 'c) \<Rightarrow> 'c list result" where
  "array_alignWith fa fb f =
     (let fc = [];
          aLen = length fa;
          bLen = length fb;
          len = min aLen bLen
      in rbind
           (for_loop 0 len
              (\<lambda>i fc. rbind (array_get fa i) (\<lambda>a. rbind (array_get fb i) (\<lambda>b.
                         array_set fc i (f (Both a b)))))
              fc)
           (\<lambda>fc.
              if aLen > bLen
              then for_loop bLen aLen
                     (\<lambda>i fc. rbind (array_get fa i) (\<lambda>a. array_set fc i (f (This a)))) fc
              else for_loop aLen bLen
                     (\<lambda>i fc. rbind (array_get fb i) (\<lambda>b. array_set fc i (f (That b)))) fc))"

definition array_align :: "'a list \<Rightarrow> 'b list \<Rightarrow> ('a, 'b) These list result" where
  "array_align fa fb = array_alignWith fa fb id"

subsection \<open>The \<open>NonEmptyArray\<close> instance\<close>

definition nonEmptyArray_alignWith ::
  "'a NonEmptyArray \<Rightarrow> 'b NonEmptyArray \<Rightarrow> (('a, 'b) These \<Rightarrow> 'c) \<Rightarrow> 'c NonEmptyArray result" where
  "nonEmptyArray_alignWith fa fb f =
     rbind (array_alignWith (tail fa) (tail fb) f) (\<lambda>t.
       Inr \<lparr>head = f (Both (head fa) (head fb)), tail = t\<rparr>)"

definition nonEmptyArray_align ::
  "'a NonEmptyArray \<Rightarrow> 'b NonEmptyArray \<Rightarrow> ('a, 'b) These NonEmptyArray result" where
  "nonEmptyArray_align fa fb =
     rbind (array_align (tail fa) (tail fb)) (\<lambda>t.
       Inr \<lparr>head = Both (head fa) (head fb), tail = t\<rparr>)"

subsection \<open>The \<open>Record\<close> instance\<close>

text \<open>
  A record is a plain JavaScript object used as a dictionary, as an object literal or
  \<open>JSON.parse\<close> builds it: the list of its own properties, every key once, with
  \<open>Object.prototype\<close> as its prototype and data (not functions) as its values. For an
  input the order of the list is the order in which \<open>Object.keys\<close> enumerates the keys;
  for the result it is the order in which the loops create the properties. \<open>m[key]\<close> of
  a key that \<open>m\<close> does not own is not a value of the record.

  The source tests membership with \<open>m.hasOwnProperty(key)\<close>, a method looked up on the
  record itself. A record that owns a property named \<open>hasOwnProperty\<close> shadows the method
  of \<open>Object.prototype\<close> with that property's value, a datum of the record and not a
  function, and the call throws a \<open>TypeError\<close>.

  The source builds its result by \<open>r[key] = v\<close> on \<open>r = {}\<close>. The write overwrites the
  property \<open>key\<close> where \<open>r\<close> owns it and creates it after the others where it does not,
  for every key but one: \<open>__proto__\<close> is an accessor that \<open>r\<close> inherits from
  \<open>Object.prototype\<close>, so \<open>r['__proto__'] = v\<close> runs its setter (which replaces the
  prototype of \<open>r\<close> when \<open>v\<close> is an object and does nothing otherwise) and creates no
  own property. The model keeps the own properties of the result; the prototype the
  setter installs is not tracked.
\<close>

type_synonym 'a Record = "(string \<times> 'a) list"

definition Object_keys :: "'a Record \<Rightarrow> string list" where
  "Object_keys m = map fst m"

definition hasOwnProperty :: "'a Record \<Rightarrow> string \<Rightarrow> bool result" where
  "hasOwnProperty m key =
     (case map_of m ''hasOwnProperty'' of
        Some v \<Rightarrow> Inl NotAFunction
      | None \<Rightarrow> Inr (map_of m key \<noteq> None))"

definition record_get :: "'a Record \<Rightarrow> string \<Rightarrow> 'a result" where
  "record_get m key = (case map_of m key of None \<Rightarrow> Inl UndefinedRead | Some v \<Rightarrow> Inr v)"

definition record_set :: "'a Record \<Rightarrow> string \<Rightarrow> 'a \<Rightarrow> 'a Record" where
  "record_set r key v = (if key = ''__proto__'' then r else AList.update key v r)"

text \<open>The loop \<open>for (const key of keys) body\<close> over the state \<open>s\<close>.\<close>

primrec for_of :: "'k list \<Rightarrow> ('k \<Rightarrow> 's \<Rightarrow> 's result) \<Rightarrow> 's \<Rightarrow> 's result" where
  "for_of [] body s = Inr s"
| "for_of (key # keys) body s =
     (case body key s of Inl e \<Rightarrow> Inl e | Inr s' \<Rightarrow> for_of keys body s')"

definition recordAlignWith ::
  "'a Record \<Rightarrow> 'b Record \<Rightarrow> (('a, 'b) These \<Rightarrow> 'c) \<Rightarrow> 'c Record result" where
  "recordAlignWith fa fb f =
     (let r = []
      in rbind
           (for_of (Object_keys fa)
              (\<lambda>key r. rbind (hasOwnProperty fb key) (\<lambda>owned.
                 if owned
                 then rbind (record_get fa key) (\<lambda>a. rbind (record_get fb key) (\<lambda>b.
                        Inr (record_set r key (f (Both a b)))))
                 else rbind (record_get fa key) (\<lambda>a.
                        Inr (record_set r key (f (This a))))))
              r)
           (\<lambda>r.
              for_of (Object_keys fb)
                (\<lambda>key r. rbind (hasOwnProperty fa key) (\<lambda>owned.
                   if \<not> owned
                   then rbind (record_get fb key) (\<lambda>b.
                          Inr (record_set r key (f (That b))))
                   else Inr r))
                r))"

definition recordAlign :: "'a Record \<Rightarrow> 'b Record \<Rightarrow> ('a, 'b) These Record result" where
  "recordAlign fa fb = recordAlignWith fa fb id"

text \<open>
  Modelled from the spec: \<open>map\<close> of the three instances, spread from the prelude's
  \<open>Option\<close>, \<open>Array\<close> and \<open>Record\<close> modules, maps over a container and keeps its shape.
  For an optional value it is \<open>map_option\<close>, for a sequence \<open>map\<close>, and for a record the
  map over the values that keeps every key in place.
\<close>

definition record_map :: "('a \<Rightarrow> 'b) \<Rightarrow> 'a Record \<Rightarrow> 'b Record" where
  "record_map g m = map (\<lambda>(key, v). (key, g v)) m"

section \<open>Align.ts\<close>

text \<open>
  The generic combinators take the instance \<open>F\<close> and call its \<open>alignWith\<close>; here they
  take that function, so \<open>salign(array, S)\<close> is \<open>salign array_alignWith S\<close>.
\<close>

definition salign ::
  "('fa \<Rightarrow> 'fa \<Rightarrow> (('a, 'a) These \<Rightarrow> 'a) \<Rightarrow> 'r) \<Rightarrow> 'a Semigroup \<Rightarrow> 'fa \<Rightarrow> 'fa \<Rightarrow> 'r" where
  "salign F_alignWith S fx fy =
     F_alignWith fx fy (\<lambda>xy. fold_These xy id id (concat_S S))"

definition padZipWith ::
  "('fa \<Rightarrow> 'fb \<Rightarrow> (('a, 'b) These \<Rightarrow> 'c) \<Rightarrow> 'r) \<Rightarrow> 'fa \<Rightarrow> 'fb
     \<Rightarrow> ('a option \<Rightarrow> 'b option \<Rightarrow> 'c) \<Rightarrow> 'r" where
  "padZipWith F_alignWith fa fb f =
     F_alignWith fa fb (\<lambda>ab.
       fold_These (bimap_These ab Some Some)
         (\<lambda>a. f a None) (\<lambda>b. f None b) (\<lambda>a b. f a b))"

definition padZip ::
  "('fa \<Rightarrow> 'fb \<Rightarrow> (('a, 'b) These \<Rightarrow> 'a option \<times> 'b option) \<Rightarrow> 'r) \<Rightarrow> 'fa \<Rightarrow> 'fb \<Rightarrow> 'r" where
  "padZip F_alignWith fa fb = padZipWith F_alignWith fa fb (\<lambda>a b. (a, b))"

definition lpadZipWith ::
  "'a list \<Rightarrow> 'b list \<Rightarrow> ('a option \<Rightarrow> 'b \<Rightarrow> 'c) \<Rightarrow> 'c list result" where
  "lpadZipWith xs ys f =
     rmap catOptions
       (padZipWith array_alignWith xs ys (\<lambda>ma mb. map_option (\<lambda>b. f ma b) mb))"

definition lpadZip :: "'a list \<Rightarrow> 'b list \<Rightarrow> ('a option \<times> 'b) list result" where
  "lpadZip xs ys = lpadZipWith xs ys (\<lambda>a b. (a, b))"

definition rpadZipWith ::
  "'a list \<Rightarrow> 'b list \<Rightarrow> ('a \<Rightarrow> 'b option \<Rightarrow> 'c) \<Rightarrow> 'c list result" where
  "rpadZipWith xs ys f = lpadZipWith ys xs (\<lambda>a b. f b a)"

definition rpadZip :: "'a list \<Rightarrow> 'b list \<Rightarrow> ('a \<times> 'b option) list result" where
  "rpadZip xs ys = rpadZipWith xs ys (\<lambda>a b. (a, b))"

definition option_nil :: "'a option" where
  "option_nil = None"

definition array_nil :: "'a list" where
  "array_nil = []"

definition record_nil :: "'a Record" where
  "record_nil = []"

section \<open>The sequence instance\<close>

lemma for_loop_append:
  "\<lbrakk>\<forall>j fc'. i \<le> j \<and> j < hi \<and> length fc' = j \<longrightarrow> body j fc' = Inr (fc' @ [g j]);
    length fc = i; i \<le> hi\<rbrakk>
   \<Longrightarrow> for_loop i hi body fc = Inr (fc @ map g [i..<hi])"
proof (induction i hi body fc rule: for_loop.induct)
  case (1 i hi body s)
  show ?case
  proof (cases "i < hi")
    case False
    with "1.prems" show ?thesis
      by (subst for_loop.simps) simp
  next
    case True
    from "1.prems" True have step: "body i s = Inr (s @ [g i])"
      by blast
    have "for_loop (Suc i) hi body (s @ [g i]) = Inr ((s @ [g i]) @ map g [Suc i..<hi])"
      using "1.prems" True by (intro "1.IH" [OF True step]) auto
    with True step show ?thesis
      by (subst for_loop.simps) (simp add: upt_conv_Cons)
  qed
qed

lemma array_alignWith_closed:
  "array_alignWith fa fb f =
     Inr (map (\<lambda>i. f (if i < length fa \<and> i < length fb then Both (fa ! i) (fb ! i)
                       else if i < length fa then This (fa ! i) else That (fb ! i)))
            [0..<max (length fa) (length fb)])"
proof -
  let ?G = "\<lambda>i. f (if i < length fa \<and> i < length fb then Both (fa ! i) (fb ! i)
                    else if i < length fa then This (fa ! i) else That (fb ! i))"
  let ?m = "min (length fa) (length fb)"
  have both: "for_loop 0 ?m
      (\<lambda>i fc. rbind (array_get fa i) (\<lambda>a. rbind (array_get fb i) (\<lambda>b.
                 array_set fc i (f (Both a b))))) [] = Inr ([] @ map ?G [0..<?m])"
    by (rule for_loop_append) (auto simp: rbind_def array_get_def array_set_def)
  show ?thesis
  proof (cases "length fa > length fb")
    case True
    have "for_loop (length fb) (length fa)
        (\<lambda>i fc. rbind (array_get fa i) (\<lambda>a. array_set fc i (f (This a))))
        (map ?G [0..<length fb])
      = Inr (map ?G [0..<length fb] @ map ?G [length fb..<length fa])"
      using True by (intro for_loop_append) (auto simp: rbind_def array_get_def array_set_def)
    moreover have "[0..<length fa] = [0..<length fb] @ [length fb..<length fa]"
      using True by (metis le_add_diff_inverse less_imp_le_nat upt_add_eq_append zero_le)
    ultimately show ?thesis
      using True both by (simp add: array_alignWith_def Let_def rbind_def min_def max_def)
  next
    case False
    have "for_loop (length fa) (length fb)
        (\<lambda>i fc. rbind (array_get fb i) (\<lambda>b. array_set fc i (f (That b))))
        (map ?G [0..<length fa])
      = Inr (map ?G [0..<length fa] @ map ?G [length fa..<length fb])"
      using False by (intro for_loop_append) (auto simp: rbind_def array_get_def array_set_def)
    moreover have "[0..<length fb] = [0..<length fa] @ [length fa..<length fb]"
      using False by (metis le_add_diff_inverse not_less upt_add_eq_append zero_le)
    ultimately show ?thesis
      using False both by (simp add: array_alignWith_def Let_def rbind_def min_def max_def)
  qed
qed

text \<open>
  Claim C1. For all arrays \<open>fa\<close> and \<open>fb\<close>, \<open>align(fa, fb)\<close> returns an array of length
  \<open>max(length fa, length fb)\<close>: it holds \<open>Both(fa[i], fb[i])\<close> at every index below both
  lengths, \<open>This(fa[i])\<close> at the remaining indices of a longer \<open>fa\<close> and \<open>That(fb[i])\<close> at
  the remaining indices of a longer \<open>fb\<close>, in index order; \<open>alignWith\<close> under any \<open>f\<close>
  returns the same array with \<open>f\<close> applied to every element.
\<close>

theorem array_align_shape:
  "\<exists>fc. array_align fa fb = Inr fc \<and>
        array_alignWith fa fb f = Inr (map f fc) \<and>
        length fc = max (length fa) (length fb) \<and>
        (\<forall>i. i < min (length fa) (length fb) \<longrightarrow> fc ! i = Both (fa ! i) (fb ! i)) \<and>
        (\<forall>i. length fb \<le> i \<and> i < length fa \<longrightarrow> fc ! i = This (fa ! i)) \<and>
        (\<forall>i. length fa \<le> i \<and> i < length fb \<longrightarrow> fc ! i = That (fb ! i))"
  by (auto simp: array_align_def array_alignWith_closed)

theorem array_align_shape_witness:
  "\<exists>fc. array_align [1, 2, 3 :: int] [4, 5 :: int] = Inr fc \<and>
        array_alignWith [1, 2, 3 :: int] [4, 5 :: int] (\<lambda>t. fold_These t id id (\<lambda>a b. a + b))
          = Inr (map (\<lambda>t. fold_These t id id (\<lambda>a b. a + b)) fc) \<and>
        length fc = 3 \<and> fc ! 0 = Both 1 4 \<and> fc ! 1 = Both 2 5 \<and> fc ! 2 = This 3"
  using array_align_shape
    [of "[1, 2, 3 :: int]" "[4, 5 :: int]" "\<lambda>t. fold_These t id id (\<lambda>a b. a + b)"]
  by (auto simp: nth_Cons')

section \<open>The non-empty sequence instance\<close>

text \<open>
  Claim C4. For all non-empty arrays \<open>fa\<close> and \<open>fb\<close>, \<open>nonEmptyArray.align(fa, fb)\<close> returns
  a non-empty array whose head is \<open>Both(head fa, head fb)\<close> and whose tail is the sequence
  alignment \<open>array.align(tail fa, tail fb)\<close> of the two tails.
\<close>

theorem nonEmptyArray_align_head_tail:
  "\<exists>r. nonEmptyArray_align fa fb = Inr r \<and>
       head r = Both (head fa) (head fb) \<and>
       array_align (tail fa) (tail fb) = Inr (tail r)"
  by (simp add: nonEmptyArray_align_def array_align_def array_alignWith_closed rbind_def)

section \<open>\<open>align\<close> and \<open>alignWith\<close>\<close>

text \<open>
  Claim C3. For each of the four instances (optional value, sequence, non-empty sequence,
  string-keyed mapping) and all inputs, \<open>align(fa, fb)\<close> equals
  \<open>alignWith(fa, fb, identity)\<close>; the non-empty sequence instance builds its \<open>align\<close>
  from \<open>array.align\<close> rather than from its own \<open>alignWith\<close>.
\<close>

theorem align_is_alignWith_identity:
  "option_align oa ob = option_alignWith oa ob id \<and>
   array_align xs ys = array_alignWith xs ys id \<and>
   nonEmptyArray_align na nb = nonEmptyArray_alignWith na nb id \<and>
   recordAlign ma mb = recordAlignWith ma mb id"
  by (simp add: option_align_def array_align_def recordAlign_def
        nonEmptyArray_align_def nonEmptyArray_alignWith_def)

section \<open>The derived combinators\<close>

text \<open>
  Claim C6. For every instance's \<open>alignWith\<close>, every semigroup \<open>S\<close> and all inputs,
  \<open>salign(F, S)(fx, fy)\<close> equals \<open>F.alignWith(fx, fy, t)\<close> where \<open>t\<close> sends \<open>This(a)\<close> to
  \<open>a\<close>, \<open>That(b)\<close> to \<open>b\<close> and \<open>Both(a, b)\<close> to \<open>S.concat(a, b)\<close>; with the sequence
  instance and the sum of numbers, \<open>salign([1, 2, 3], [4, 5])\<close> is \<open>[5, 7, 3]\<close>.
\<close>

theorem salign_resolves:
  "salign F_alignWith S fx fy =
     F_alignWith fx fy (\<lambda>t. case t of This a \<Rightarrow> a | That b \<Rightarrow> b | Both a b \<Rightarrow> concat_S S a b) \<and>
   salign array_alignWith semigroupSum [1, 2, 3] [4, 5] = Inr [5, 7, 3]"
proof
  have "(\<lambda>xy. fold_These xy id id (concat_S S))
      = (\<lambda>t. case t of This a \<Rightarrow> a | That b \<Rightarrow> b | Both a b \<Rightarrow> concat_S S a b)"
    by (rule ext) (simp add: fold_These_def split: These.splits)
  then show "salign F_alignWith S fx fy =
     F_alignWith fx fy (\<lambda>t. case t of This a \<Rightarrow> a | That b \<Rightarrow> b | Both a b \<Rightarrow> concat_S S a b)"
    by (simp add: salign_def)
  show "salign array_alignWith semigroupSum [1, 2, 3] [4, 5] = Inr [5, 7, 3]"
    by code_simp
qed

lemma catOptions_append: "catOptions (xs @ ys) = catOptions xs @ catOptions ys"
  by (induction xs) (auto split: option.splits)

lemma catOptions_map_Some: "catOptions (map (\<lambda>i. Some (g i)) is) = map g is"
  by (induction "is") auto

lemma catOptions_map_None: "catOptions (map (\<lambda>i. None) is) = []"
  by (induction "is") auto

lemma lpadZipWith_closed:
  "lpadZipWith xs ys f =
     Inr (map (\<lambda>i. f (if i < length xs then Some (xs ! i) else None) (ys ! i)) [0..<length ys])"
proof -
  define H where "H = (\<lambda>i. fold_These
      (bimap_These
         (if i < length xs \<and> i < length ys then Both (xs ! i) (ys ! i)
          else if i < length xs then This (xs ! i) else That (ys ! i))
         Some Some)
      (\<lambda>a. map_option (\<lambda>b. f a b) None) (\<lambda>b. map_option (\<lambda>b. f None b) b)
      (\<lambda>a b. map_option (\<lambda>b. f a b) b))"
  define h where "h = (\<lambda>i. f (if i < length xs then Some (xs ! i) else None) (ys ! i))"
  have unfolded: "lpadZipWith xs ys f
      = Inr (catOptions (map H [0..<max (length xs) (length ys)]))"
    by (simp add: H_def lpadZipWith_def padZipWith_def array_alignWith_closed rmap_def)
  have low: "map H [0..<length ys] = map (\<lambda>i. Some (h i)) [0..<length ys]"
    by (rule map_cong) (auto simp: H_def h_def fold_These_def bimap_These_def)
  have "catOptions (map H [0..<max (length xs) (length ys)]) = map h [0..<length ys]"
  proof (cases "length xs \<le> length ys")
    case True
    then have "max (length xs) (length ys) = length ys"
      by simp
    then show ?thesis
      by (simp only: low catOptions_map_Some)
  next
    case False
    then have split: "[0..<length xs] = [0..<length ys] @ [length ys..<length xs]"
      by (metis le_add_diff_inverse nat_le_linear upt_add_eq_append zero_le)
    have high: "map H [length ys..<length xs] = map (\<lambda>i. None) [length ys..<length xs]"
      by (rule map_cong) (auto simp: H_def fold_These_def bimap_These_def)
    from False have "max (length xs) (length ys) = length xs"
      by simp
    then show ?thesis
      by (simp only: split map_append low high catOptions_append catOptions_map_Some
            catOptions_map_None append_Nil2)
  qed
  with unfolded show ?thesis
    by (simp add: h_def)
qed

text \<open>
  Claim C7. For all arrays \<open>xs\<close>, \<open>ys\<close> and every \<open>f\<close>, \<open>lpadZipWith(xs, ys, f)\<close> returns
  an array of length exactly \<open>length ys\<close>, whose element at index \<open>i\<close> is
  \<open>f(some(xs[i]), ys[i])\<close> when \<open>i < length xs\<close> and \<open>f(none, ys[i])\<close> otherwise; the
  elements of \<open>xs\<close> beyond \<open>length ys\<close> contribute nothing.
\<close>

theorem lpadZipWith_shape:
  "\<exists>r. lpadZipWith xs ys f = Inr r \<and> length r = length ys \<and>
       (\<forall>i. i < length ys \<longrightarrow>
            r ! i = (if i < length xs then f (Some (xs ! i)) (ys ! i) else f None (ys ! i)))"
  by (simp add: lpadZipWith_closed)

theorem lpadZipWith_shape_witness:
  "\<exists>r. lpadZipWith [1 :: int] [10, 20 :: int] (\<lambda>a b. (a, b)) = Inr r \<and> length r = 2 \<and>
       r ! 0 = (Some 1, 10) \<and> r ! 1 = (None, 20)"
  using lpadZipWith_shape [of "[1 :: int]" "[10, 20 :: int]" "\<lambda>a b. (a, b)"]
  by (auto simp: nth_Cons')

text \<open>
  Claim C8. For all arrays \<open>xs\<close>, \<open>ys\<close> and every \<open>f\<close>, \<open>rpadZipWith(xs, ys, f)\<close> mirrors
  \<open>lpadZipWith\<close> with the sides swapped: it returns an array of length exactly
  \<open>length xs\<close>, whose element at index \<open>i\<close> is \<open>f(xs[i], some(ys[i]))\<close> when
  \<open>i < length ys\<close> and \<open>f(xs[i], none)\<close> otherwise.
\<close>

theorem rpadZipWith_shape:
  "\<exists>r. rpadZipWith xs ys f = Inr r \<and> length r = length xs \<and>
       (\<forall>i. i < length xs \<longrightarrow>
            r ! i = (if i < length ys then f (xs ! i) (Some (ys ! i)) else f (xs ! i) None))"
  by (simp add: rpadZipWith_def lpadZipWith_closed)

theorem rpadZipWith_shape_witness:
  "\<exists>r. rpadZipWith [1, 2, 3 :: int] [10 :: int] (\<lambda>a b. (a, b)) = Inr r \<and> length r = 3 \<and>
       r ! 0 = (1, Some 10) \<and> r ! 1 = (2, None) \<and> r ! 2 = (3, None)"
  using rpadZipWith_shape [of "[1, 2, 3 :: int]" "[10 :: int]" "\<lambda>a b. (a, b)"]
  by (auto simp: nth_Cons')

text \<open>
  Claim C10. For the optional-value instance, \<open>padZipWith(option)(fa, fb, f)\<close> and
  \<open>padZip(option)(fa, fb)\<close> are absent exactly when both \<open>fa\<close> and \<open>fb\<close> are absent, and
  are \<open>some(f(fa, fb))\<close> otherwise. The combining function is never applied to two absent
  optionals: the result does not depend on the value of \<open>f\<close> there, and
  \<open>padZip(option)(none, none)\<close> is \<open>none\<close>, not a present pair of two absent values.
\<close>

theorem padZip_option_absent:
  "(padZipWith option_alignWith fa fb f = None \<longleftrightarrow> fa = None \<and> fb = None) \<and>
   (padZip option_alignWith fa fb = None \<longleftrightarrow> fa = None \<and> fb = None) \<and>
   padZipWith option_alignWith fa fb f =
     (if fa = None \<and> fb = None then None else Some (f fa fb)) \<and>
   (\<forall>g. (\<forall>a b. (a, b) \<noteq> (None, None) \<longrightarrow> f a b = g a b) \<longrightarrow>
        padZipWith option_alignWith fa fb f = padZipWith option_alignWith fa fb g) \<and>
   padZip option_alignWith (None :: 'a option) (None :: 'b option) = None"
  by (cases fa; cases fb)
     (simp_all add: padZip_def padZipWith_def option_alignWith_def fold_These_def bimap_These_def)

theorem padZip_option_absent_witness:
  "padZipWith option_alignWith (Some (1 :: int)) (None :: int option) (\<lambda>a b. (a, b))
     = padZipWith option_alignWith (Some 1) None
         (\<lambda>a b. if a = None \<and> b = None then (Some 0, Some 0) else (a, b)) \<and>
   padZip option_alignWith (None :: int option) (None :: int option) = None"
proof
  note at_some = padZip_option_absent
    [of "Some (1 :: int)" "None :: int option" "\<lambda>a b. (a, b)"]
  note independent = at_some [THEN conjunct2, THEN conjunct2, THEN conjunct2, THEN conjunct1]
  show "padZipWith option_alignWith (Some (1 :: int)) (None :: int option) (\<lambda>a b. (a, b))
     = padZipWith option_alignWith (Some 1) None
         (\<lambda>a b. if a = None \<and> b = None then (Some 0, Some 0) else (a, b))"
    by (rule independent [rule_format]) simp
  note at_none = padZip_option_absent
    [of "None :: int option" "None :: int option" "\<lambda>a b. (a, b)"]
  show "padZip option_alignWith (None :: int option) (None :: int option) = None"
    by (rule at_none [THEN conjunct2, THEN conjunct2, THEN conjunct2, THEN conjunct2])
qed

section \<open>The mapping instance\<close>

text \<open>
  The two loops of \<open>recordAlignWith\<close> only ever write keys the result does not own yet,
  so every write but that of \<open>__proto__\<close> appends. The closed form below holds whenever
  neither loop meets a shadowed \<open>hasOwnProperty\<close>: the first loop calls the method of
  \<open>fb\<close> once per key of \<open>fa\<close>, the second the method of \<open>fa\<close> once per key of \<open>fb\<close>.
\<close>

lemma update_fresh: "k \<notin> fst ` set al \<Longrightarrow> AList.update k v al = al @ [(k, v)]"
  by (induction al) auto

lemma for_of_record_writes:
  "\<lbrakk>distinct ks;
    \<forall>k\<in>set ks. \<not> skip k \<and> k \<noteq> ''__proto__'' \<longrightarrow> k \<notin> fst ` set acc;
    \<forall>k\<in>set ks. \<forall>r. body k r = Inr (if skip k then r else record_set r k (g k))\<rbrakk>
   \<Longrightarrow> for_of ks body acc =
       Inr (acc @ map (\<lambda>k. (k, g k)) (filter (\<lambda>k. \<not> skip k \<and> k \<noteq> ''__proto__'') ks))"
proof (induction ks arbitrary: acc)
  case Nil
  then show ?case by simp
next
  case (Cons k ks)
  show ?case
  proof (cases "skip k \<or> k = ''__proto__''")
    case True
    with Cons.prems have "body k acc = Inr acc"
      by (auto simp: record_set_def)
    moreover have "for_of ks body acc
        = Inr (acc @ map (\<lambda>k. (k, g k)) (filter (\<lambda>k. \<not> skip k \<and> k \<noteq> ''__proto__'') ks))"
      using Cons.prems by (intro Cons.IH) auto
    ultimately show ?thesis
      using True by auto
  next
    case False
    with Cons.prems have fresh: "k \<notin> fst ` set acc"
      by simp
    from False Cons.prems have "body k acc = Inr (record_set acc k (g k))"
      by simp
    with fresh False have step: "body k acc = Inr (acc @ [(k, g k)])"
      by (simp add: record_set_def update_fresh)
    have "for_of ks body (acc @ [(k, g k)])
        = Inr ((acc @ [(k, g k)]) @
               map (\<lambda>k. (k, g k)) (filter (\<lambda>k. \<not> skip k \<and> k \<noteq> ''__proto__'') ks))"
      using Cons.prems by (intro Cons.IH) auto
    with step False show ?thesis
      by simp
  qed
qed

lemma hasOwnProperty_plain:
  "''hasOwnProperty'' \<notin> fst ` set m \<Longrightarrow> hasOwnProperty m key = Inr (key \<in> fst ` set m)"
  by (auto simp: hasOwnProperty_def map_of_eq_None_iff split: option.splits)

lemma hasOwnProperty_shadowed:
  "''hasOwnProperty'' \<in> fst ` set m \<Longrightarrow> hasOwnProperty m key = Inl NotAFunction"
  by (auto simp: hasOwnProperty_def map_of_eq_None_iff split: option.splits)

lemma record_get_owned:
  "key \<in> fst ` set m \<Longrightarrow> record_get m key = Inr (the (map_of m key))"
  by (auto simp: record_get_def map_of_eq_None_iff split: option.splits)

lemma recordAlignWith_closed:
  assumes "distinct (map fst fa)" and "distinct (map fst fb)"
    and "fa \<noteq> [] \<longrightarrow> ''hasOwnProperty'' \<notin> fst ` set fb"
    and "fb \<noteq> [] \<longrightarrow> ''hasOwnProperty'' \<notin> fst ` set fa"
  shows "recordAlignWith fa fb f =
     Inr (map (\<lambda>k. (k, f (if k \<in> fst ` set fb
                            then Both (the (map_of fa k)) (the (map_of fb k))
                            else This (the (map_of fa k)))))
            (filter (\<lambda>k. k \<noteq> ''__proto__'') (map fst fa)) @
          map (\<lambda>k. (k, f (That (the (map_of fb k)))))
            (filter (\<lambda>k. k \<notin> fst ` set fa \<and> k \<noteq> ''__proto__'') (map fst fb)))"
proof -
  define g1 where "g1 = (\<lambda>k. f (if k \<in> fst ` set fb
      then Both (the (map_of fa k)) (the (map_of fb k)) else This (the (map_of fa k))))"
  define g2 where "g2 = (\<lambda>k. f (That (the (map_of fb k))))"
  define r1 where "r1 = map (\<lambda>k. (k, g1 k)) (filter (\<lambda>k. k \<noteq> ''__proto__'') (map fst fa))"
  let ?body1 = "\<lambda>key r. rbind (hasOwnProperty fb key) (\<lambda>owned.
      if owned
      then rbind (record_get fa key) (\<lambda>a. rbind (record_get fb key) (\<lambda>b.
             Inr (record_set r key (f (Both a b)))))
      else rbind (record_get fa key) (\<lambda>a. Inr (record_set r key (f (This a)))))"
  let ?body2 = "\<lambda>key r. rbind (hasOwnProperty fa key) (\<lambda>owned.
      if \<not> owned
      then rbind (record_get fb key) (\<lambda>b. Inr (record_set r key (f (That b))))
      else Inr r)"
  have "for_of (map fst fa) ?body1 []
      = Inr ([] @ map (\<lambda>k. (k, g1 k))
                    (filter (\<lambda>k. \<not> False \<and> k \<noteq> ''__proto__'') (map fst fa)))"
  proof (rule for_of_record_writes)
    show "distinct (map fst fa)" by (rule assms(1))
    show "\<forall>k\<in>set (map fst fa). \<not> False \<and> k \<noteq> ''__proto__'' \<longrightarrow> k \<notin> fst ` set []"
      by simp
    show "\<forall>k\<in>set (map fst fa). \<forall>r. ?body1 k r = Inr (if False then r else record_set r k (g1 k))"
    proof (intro ballI allI)
      fix k r
      assume k: "k \<in> set (map fst fa)"
      then have "fa \<noteq> []" by auto
      with assms(3) have plain: "hasOwnProperty fb k = Inr (k \<in> fst ` set fb)"
        by (simp add: hasOwnProperty_plain)
      from k have ga: "record_get fa k = Inr (the (map_of fa k))"
        by (simp add: record_get_owned)
      show "?body1 k r = Inr (if False then r else record_set r k (g1 k))"
        using plain ga by (simp add: rbind_def g1_def record_get_owned)
    qed
  qed
  then have first: "for_of (map fst fa) ?body1 [] = Inr r1"
    by (simp add: r1_def)
  have second: "for_of (map fst fb) ?body2 r1
      = Inr (r1 @ map (\<lambda>k. (k, g2 k))
                    (filter (\<lambda>k. \<not> k \<in> fst ` set fa \<and> k \<noteq> ''__proto__'') (map fst fb)))"
  proof (rule for_of_record_writes)
    show "distinct (map fst fb)" by (rule assms(2))
    show "\<forall>k\<in>set (map fst fb). \<not> k \<in> fst ` set fa \<and> k \<noteq> ''__proto__''
        \<longrightarrow> k \<notin> fst ` set r1"
      by (auto simp: r1_def image_iff)
    show "\<forall>k\<in>set (map fst fb). \<forall>r. ?body2 k r
        = Inr (if k \<in> fst ` set fa then r else record_set r k (g2 k))"
    proof (intro ballI allI)
      fix k r
      assume k: "k \<in> set (map fst fb)"
      then have "fb \<noteq> []" by auto
      with assms(4) have plain: "hasOwnProperty fa k = Inr (k \<in> fst ` set fa)"
        by (simp add: hasOwnProperty_plain)
      from k have "record_get fb k = Inr (the (map_of fb k))"
        by (simp add: record_get_owned)
      with plain show "?body2 k r = Inr (if k \<in> fst ` set fa then r else record_set r k (g2 k))"
        by (simp add: rbind_def g2_def)
    qed
  qed
  from first second show ?thesis
    by (simp add: recordAlignWith_def Object_keys_def rbind_def g1_def g2_def r1_def)
qed

lemma record_map_by_keys:
  assumes "distinct (map fst m)" and "''__proto__'' \<notin> fst ` set m"
  shows "map (\<lambda>k. (k, g (the (map_of m k)))) (filter (\<lambda>k. k \<noteq> ''__proto__'') (map fst m))
    = record_map g m"
proof -
  from assms(2) have "filter (\<lambda>k. k \<noteq> ''__proto__'') (map fst m) = map fst m"
    by (force simp: filter_id_conv)
  moreover have "map ((\<lambda>k. (k, g (the (map_of m k)))) \<circ> fst) m = map (\<lambda>(key, v). (key, g v)) m"
    using assms(1) by (intro map_cong) auto
  ultimately show ?thesis
    by (simp add: record_map_def)
qed

lemma map_of_tabulate:
  "map_of (map (\<lambda>k. (k, g k)) ks) k = (if k \<in> set ks then Some (g k) else None)"
  by (induction ks) auto

text \<open>
  What \<open>recordAlign\<close> returns for records with distinct keys, where no loop meets a
  shadowed \<open>hasOwnProperty\<close>: the keys of both inputs but \<open>__proto__\<close>, each once, those
  of \<open>m1\<close> before those of \<open>m2\<close> alone, with \<open>Both\<close>, \<open>This\<close> and \<open>That\<close> as values.
\<close>

lemma recordAlign_keys_and_values:
  assumes "distinct (map fst m1)" and "distinct (map fst m2)"
    and "m1 \<noteq> [] \<longrightarrow> ''hasOwnProperty'' \<notin> fst ` set m2"
    and "m2 \<noteq> [] \<longrightarrow> ''hasOwnProperty'' \<notin> fst ` set m1"
  shows "\<exists>r. recordAlign m1 m2 = Inr r \<and>
       map fst r = filter (\<lambda>k. k \<noteq> ''__proto__'')
                     (map fst m1 @ filter (\<lambda>k. k \<notin> fst ` set m1) (map fst m2)) \<and>
       distinct (map fst r) \<and>
       set (map fst r) = (set (map fst m1) \<union> set (map fst m2)) - {''__proto__''} \<and>
       (\<forall>k. map_of r k =
          (if k = ''__proto__'' then None
           else case (map_of m1 k, map_of m2 k) of
             (Some a, Some b) \<Rightarrow> Some (Both a b)
           | (Some a, None) \<Rightarrow> Some (This a)
           | (None, Some b) \<Rightarrow> Some (That b)
           | (None, None) \<Rightarrow> None))"
proof -
  define r where "r =
     map (\<lambda>k. (k, if k \<in> fst ` set m2
                   then Both (the (map_of m1 k)) (the (map_of m2 k))
                   else This (the (map_of m1 k))))
       (filter (\<lambda>k. k \<noteq> ''__proto__'') (map fst m1)) @
     map (\<lambda>k. (k, That (the (map_of m2 k))))
       (filter (\<lambda>k. k \<notin> fst ` set m1 \<and> k \<noteq> ''__proto__'') (map fst m2))"
  have result: "recordAlign m1 m2 = Inr r"
    using assms by (simp add: recordAlign_def recordAlignWith_closed r_def)
  have keys: "map fst r = filter (\<lambda>k. k \<noteq> ''__proto__'')
      (map fst m1 @ filter (\<lambda>k. k \<notin> fst ` set m1) (map fst m2))"
    by (simp add: r_def o_def conj_commute)
  have dist: "distinct (map fst r)"
    unfolding keys using assms(1,2) by auto
  have union: "set (map fst r) = (set (map fst m1) \<union> set (map fst m2)) - {''__proto__''}"
    unfolding keys by auto
  have lookup: "map_of r k =
          (if k = ''__proto__'' then None
           else case (map_of m1 k, map_of m2 k) of
             (Some a, Some b) \<Rightarrow> Some (Both a b)
           | (Some a, None) \<Rightarrow> Some (This a)
           | (None, Some b) \<Rightarrow> Some (That b)
           | (None, None) \<Rightarrow> None)" for k
  proof -
    have member: "\<And>m :: (string \<times> 'x) list. (k \<in> fst ` set m) = (map_of m k \<noteq> None)"
      by (simp add: map_of_eq_None_iff)
    have "map_of r k =
        (if k = ''__proto__'' then None
         else if k \<in> fst ` set m1
         then Some (if k \<in> fst ` set m2
                    then Both (the (map_of m1 k)) (the (map_of m2 k))
                    else This (the (map_of m1 k)))
         else if k \<in> fst ` set m2 then Some (That (the (map_of m2 k))) else None)"
      unfolding r_def map_of_append map_add_def map_of_tabulate by auto
    then show ?thesis
      unfolding member by (auto split: option.splits)
  qed
  from result keys dist union lookup show ?thesis
    by blast
qed

section \<open>The identity laws\<close>

text \<open>
  The identity laws hold for optional values, for sequences, and for every record with
  distinct keys that owns no property \<open>__proto__\<close>.
\<close>

lemma align_nil_identity_plain:
  "option_align fa (option_nil :: 'b option) = map_option This fa \<and>
   option_align (option_nil :: 'b option) fa = map_option That fa \<and>
   array_align xs (array_nil :: 'b list) = Inr (map This xs) \<and>
   array_align (array_nil :: 'b list) xs = Inr (map That xs) \<and>
   (distinct (map fst m) \<and> ''__proto__'' \<notin> fst ` set m \<longrightarrow>
      recordAlign m (record_nil :: 'b Record) = Inr (record_map This m) \<and>
      recordAlign (record_nil :: 'b Record) m = Inr (record_map That m))"
proof (intro conjI impI)
  show "option_align fa (option_nil :: 'b option) = map_option This fa"
    by (cases fa) (simp_all add: option_align_def option_alignWith_def option_nil_def)
  show "option_align (option_nil :: 'b option) fa = map_option That fa"
    by (cases fa) (simp_all add: option_align_def option_alignWith_def option_nil_def)
  show "array_align xs (array_nil :: 'b list) = Inr (map This xs)"
    unfolding array_align_def array_alignWith_closed array_nil_def
    by (simp, intro nth_equalityI) simp_all
  show "array_align (array_nil :: 'b list) xs = Inr (map That xs)"
    unfolding array_align_def array_alignWith_closed array_nil_def
    by (simp, intro nth_equalityI) simp_all
next
  assume "distinct (map fst m) \<and> ''__proto__'' \<notin> fst ` set m"
  then have d: "distinct (map fst m)" and p: "''__proto__'' \<notin> fst ` set m"
    by simp_all
  have left: "recordAlignWith m ([] :: 'b Record) id
      = Inr (map (\<lambda>k. (k, This (the (map_of m k))))
               (filter (\<lambda>k. k \<noteq> ''__proto__'') (map fst m)))"
    using d by (simp add: recordAlignWith_closed)
  show "recordAlign m (record_nil :: 'b Record) = Inr (record_map This m)"
    unfolding recordAlign_def record_nil_def left
    by (simp only: record_map_by_keys [OF d p])
  have right: "recordAlignWith ([] :: 'b Record) m id
      = Inr (map (\<lambda>k. (k, That (the (map_of m k))))
               (filter (\<lambda>k. k \<noteq> ''__proto__'') (map fst m)))"
    using d by (simp add: recordAlignWith_closed)
  show "recordAlign (record_nil :: 'b Record) m = Inr (record_map That m)"
    unfolding recordAlign_def record_nil_def right
    by (simp only: record_map_by_keys [OF d p])
qed


section \<open>Totality\<close>

text \<open>
  The operations on optional values have no error branch at all. The operations on
  sequences and non-empty sequences always return: no loop reads beyond the end of an
  input or writes beyond the end of the result.
\<close>

lemma sequence_operations_return:
  "(\<exists>r. array_alignWith xs ys f = Inr r) \<and>
   (\<exists>r. array_align xs ys = Inr r) \<and>
   (\<exists>r. nonEmptyArray_alignWith na nb f = Inr r) \<and>
   (\<exists>r. nonEmptyArray_align na nb = Inr r) \<and>
   (\<exists>r. salign array_alignWith S zs zs' = Inr r) \<and>
   (\<exists>r. padZipWith array_alignWith xs ys g = Inr r) \<and>
   (\<exists>r. padZip array_alignWith xs ys = Inr r) \<and>
   (\<exists>r. lpadZipWith xs ys gl = Inr r) \<and>
   (\<exists>r. lpadZip xs ys = Inr r) \<and>
   (\<exists>r. rpadZipWith xs ys gr = Inr r) \<and>
   (\<exists>r. rpadZip xs ys = Inr r)"
  by (simp add: array_align_def nonEmptyArray_alignWith_def nonEmptyArray_align_def
        salign_def padZipWith_def padZip_def lpadZip_def rpadZipWith_def rpadZip_def
        lpadZipWith_closed array_alignWith_closed rbind_def)

text \<open>
  The operations on mappings return exactly when no call of \<open>hasOwnProperty\<close> that a
  loop makes is shadowed; otherwise they throw.
\<close>

lemma for_of_total:
  "\<forall>k\<in>set ks. \<forall>r. \<exists>r'. body k r = Inr r' \<Longrightarrow> \<exists>r'. for_of ks body acc = Inr r'"
proof (induction ks arbitrary: acc)
  case Nil
  then show ?case by simp
next
  case (Cons k ks)
  then obtain r' where "body k acc = Inr r'"
    by (meson list.set_intros(1))
  moreover have "\<exists>r''. for_of ks body r' = Inr r''"
    using Cons.prems by (intro Cons.IH) simp
  ultimately show ?case
    by simp
qed

lemma for_of_throws:
  "\<lbrakk>ks \<noteq> []; \<forall>k r. body k r = Inl e\<rbrakk> \<Longrightarrow> for_of ks body acc = Inl e"
  by (cases ks) simp_all

lemma recordAlignWith_throws:
  assumes "(fa \<noteq> [] \<and> ''hasOwnProperty'' \<in> fst ` set fb) \<or>
           (fb \<noteq> [] \<and> ''hasOwnProperty'' \<in> fst ` set fa)"
  shows "recordAlignWith fa fb f = Inl NotAFunction"
proof (cases "fa \<noteq> [] \<and> ''hasOwnProperty'' \<in> fst ` set fb")
  case True
  then have "for_of (Object_keys fa)
      (\<lambda>key r. rbind (hasOwnProperty fb key) (\<lambda>owned.
         if owned
         then rbind (record_get fa key) (\<lambda>a. rbind (record_get fb key) (\<lambda>b.
                Inr (record_set r key (f (Both a b)))))
         else rbind (record_get fa key) (\<lambda>a. Inr (record_set r key (f (This a))))))
      [] = Inl NotAFunction"
    by (intro for_of_throws) (simp_all add: Object_keys_def hasOwnProperty_shadowed rbind_def)
  then show ?thesis
    by (simp add: recordAlignWith_def rbind_def)
next
  case False
  with assms have second: "fb \<noteq> []" "''hasOwnProperty'' \<in> fst ` set fa"
    by auto
  then have "fa \<noteq> []"
    by auto
  with False have plain: "''hasOwnProperty'' \<notin> fst ` set fb"
    by simp
  have "\<exists>r. for_of (Object_keys fa)
      (\<lambda>key r. rbind (hasOwnProperty fb key) (\<lambda>owned.
         if owned
         then rbind (record_get fa key) (\<lambda>a. rbind (record_get fb key) (\<lambda>b.
                Inr (record_set r key (f (Both a b)))))
         else rbind (record_get fa key) (\<lambda>a. Inr (record_set r key (f (This a))))))
      [] = Inr r"
    using plain
    by (intro for_of_total)
       (simp add: Object_keys_def hasOwnProperty_plain record_get_owned rbind_def)
  then obtain r1 where first: "for_of (Object_keys fa)
      (\<lambda>key r. rbind (hasOwnProperty fb key) (\<lambda>owned.
         if owned
         then rbind (record_get fa key) (\<lambda>a. rbind (record_get fb key) (\<lambda>b.
                Inr (record_set r key (f (Both a b)))))
         else rbind (record_get fa key) (\<lambda>a. Inr (record_set r key (f (This a))))))
      [] = Inr r1" ..
  have "for_of (Object_keys fb)
      (\<lambda>key r. rbind (hasOwnProperty fa key) (\<lambda>owned.
         if \<not> owned
         then rbind (record_get fb key) (\<lambda>b. Inr (record_set r key (f (That b))))
         else Inr r))
      r1 = Inl NotAFunction"
    using second
    by (intro for_of_throws) (simp_all add: Object_keys_def hasOwnProperty_shadowed rbind_def)
  with first show ?thesis
    by (simp add: recordAlignWith_def rbind_def)
qed

lemma recordAlignWith_returns:
  assumes "fa \<noteq> [] \<longrightarrow> ''hasOwnProperty'' \<notin> fst ` set fb"
    and "fb \<noteq> [] \<longrightarrow> ''hasOwnProperty'' \<notin> fst ` set fa"
  shows "\<exists>r. recordAlignWith fa fb f = Inr r"
proof -
  have "\<exists>r. for_of (Object_keys fa)
      (\<lambda>key r. rbind (hasOwnProperty fb key) (\<lambda>owned.
         if owned
         then rbind (record_get fa key) (\<lambda>a. rbind (record_get fb key) (\<lambda>b.
                Inr (record_set r key (f (Both a b)))))
         else rbind (record_get fa key) (\<lambda>a. Inr (record_set r key (f (This a))))))
      [] = Inr r"
  proof (intro for_of_total ballI allI)
    fix k r
    assume "k \<in> set (Object_keys fa)"
    then have k: "k \<in> fst ` set fa"
      by (simp add: Object_keys_def)
    then have "fa \<noteq> []"
      by auto
    with assms(1) have "''hasOwnProperty'' \<notin> fst ` set fb"
      by simp
    with k show "\<exists>r'. rbind (hasOwnProperty fb k) (\<lambda>owned.
         if owned
         then rbind (record_get fa k) (\<lambda>a. rbind (record_get fb k) (\<lambda>b.
                Inr (record_set r k (f (Both a b)))))
         else rbind (record_get fa k) (\<lambda>a. Inr (record_set r k (f (This a))))) = Inr r'"
      by (simp add: hasOwnProperty_plain record_get_owned rbind_def)
  qed
  then obtain r1 where first: "for_of (Object_keys fa)
      (\<lambda>key r. rbind (hasOwnProperty fb key) (\<lambda>owned.
         if owned
         then rbind (record_get fa key) (\<lambda>a. rbind (record_get fb key) (\<lambda>b.
                Inr (record_set r key (f (Both a b)))))
         else rbind (record_get fa key) (\<lambda>a. Inr (record_set r key (f (This a))))))
      [] = Inr r1" ..
  have "\<exists>r. for_of (Object_keys fb)
      (\<lambda>key r. rbind (hasOwnProperty fa key) (\<lambda>owned.
         if \<not> owned
         then rbind (record_get fb key) (\<lambda>b. Inr (record_set r key (f (That b))))
         else Inr r))
      r1 = Inr r"
  proof (intro for_of_total ballI allI)
    fix k r
    assume "k \<in> set (Object_keys fb)"
    then have k: "k \<in> fst ` set fb"
      by (simp add: Object_keys_def)
    then have "fb \<noteq> []"
      by auto
    with assms(2) have "''hasOwnProperty'' \<notin> fst ` set fa"
      by simp
    with k show "\<exists>r'. rbind (hasOwnProperty fa k) (\<lambda>owned.
         if \<not> owned
         then rbind (record_get fb k) (\<lambda>b. Inr (record_set r k (f (That b))))
         else Inr r) = Inr r'"
      by (simp add: hasOwnProperty_plain record_get_owned rbind_def)
  qed
  with first show ?thesis
    by (simp add: recordAlignWith_def rbind_def)
qed

text \<open>
  Claim C2. For records \<open>m1\<close> and \<open>m2\<close>, the keys of \<open>align(m1, m2)\<close> are the union of the
  keys of both, each once, with \<open>Both\<close> at a shared key, \<open>This\<close> at a key of \<open>m1\<close> alone
  and \<open>That\<close> at a key of \<open>m2\<close> alone, the keys of \<open>m1\<close> first.
  The claim fails on the record \<open>{hasOwnProperty: 1}\<close> aligned with \<open>{b: 2}\<close>: the second
  loop calls \<open>fa.hasOwnProperty("b")\<close>, which is the number \<open>1\<close>, and throws instead of
  returning the record with the keys \<open>hasOwnProperty\<close> and \<open>b\<close>.
\<close>

theorem recordAlign_shadowed_left:
  "recordAlign [(''hasOwnProperty'', 1 :: int)] [(''b'', 2 :: int)] = Inl NotAFunction"
  by code_simp

text \<open>
  Claim C9. Every exposed operation returns a defined result on every well-typed input.
  This holds for the operations on optional values, sequences and non-empty sequences
  (\<open>sequence_operations_return\<close>), and for the operations on mappings unless a call of
  \<open>hasOwnProperty\<close> is shadowed (\<open>recordAlignWith_returns\<close>). The claim fails on the
  record \<open>{a: 1}\<close> aligned with \<open>{hasOwnProperty: 2}\<close>: the first loop calls
  \<open>fb.hasOwnProperty("a")\<close>, which is the number \<open>2\<close>, and throws.
\<close>

theorem recordAlignWith_shadowed_right:
  "recordAlignWith [(''a'', 1 :: int)] [(''hasOwnProperty'', 2 :: int)]
     (\<lambda>t. fold_These t id id (\<lambda>a b. a + b)) = Inl NotAFunction"
  by code_simp

end
